theory Spec2Isabelle
  imports Complex_Main "HOL-Library.Word"
begin

section \<open>Bone-Ager front end: the logic of \<open>src/bone_age/frontend/main.py\<close>\<close>

text \<open>
  The script is a linear sequence of widget calls around one utility
  (\<open>normalize_to_uint8\<close>), one placeholder (\<open>estimate_bone_age\<close>), a scrub of three
  DICOM fields, a confidence band and a download file name. Each of them is embedded
  below as a HOL function, in the order of the source.
\<close>

subsection \<open>numpy arrays\<close>

text \<open>
  An \<open>ndarray\<close> is its shape and its flat buffer of samples. The element-wise
  operations of the source (\<open>astype\<close>, \<open>-\<close>, \<open>*\<close>, \<open>/\<close>, \<open>zeros_like\<close>) keep
  the shape and act on the buffer; \<open>np.max\<close> and \<open>np.min\<close> reduce the whole buffer and
  raise \<open>ValueError\<close> on an empty one. The only caller of \<open>normalize_to_uint8\<close> passes
  \<open>dicom_data.pixel_array\<close>, an array of an integer type: the input samples are \<open>int\<close>,
  the output samples \<open>8 word\<close>.
\<close>

record 'a ndarray =
  shape :: "nat list"
  data :: "'a list"

datatype py_error =
    ValueError      \<comment> \<open>reduction of an array with no element\<close>
  | AttributeError  \<comment> \<open>attribute access on \<open>None\<close>, or a data set with no pixel data\<close>
  | OverflowError   \<comment> \<open>an \<open>int\<close> too large to convert to \<open>float\<close>\<close>

definition np_max :: "'a::linorder list \<Rightarrow> py_error + 'a" where
  "np_max xs = (case xs of [] \<Rightarrow> Inl ValueError | x # ys \<Rightarrow> Inr (fold max ys x))"

definition np_min :: "'a::linorder list \<Rightarrow> py_error + 'a" where
  "np_min xs = (case xs of [] \<Rightarrow> Inl ValueError | x # ys \<Rightarrow> Inr (fold min ys x))"

definition zeros_like :: "'a ndarray \<Rightarrow> 8 word ndarray" where
  "zeros_like img = \<lparr>shape = shape img, data = replicate (length (data img)) 0\<rparr>"

subsection \<open>Single-precision arithmetic\<close>

text \<open>
  \<open>image.astype(np.float32)\<close> makes every later operation of \<open>normalize_to_uint8\<close> a
  binary32 operation: the exact result, rounded to the nearest value with a 24-bit
  significand, ties to the even significand. A finite binary32 value is modelled by the
  rational it denotes and \<open>f32\<close> is that rounding. The samples are those of a numpy
  integer array (at most 64 bits), so no operation of the function overflows the
  binary32 range. The one operation with a non-finite result is a division by zero
  (\<open>0 / 0\<close> is a NaN, \<open>x / 0\<close> an infinity with the sign of \<open>x\<close>): numpy warns and
  goes on, so \<open>f32_div\<close> returns the non-finite value and the array keeps its place.
  \<open>astype(np.uint8)\<close> truncates a finite value towards zero; what it stores for a
  non-finite one is left to the platform (numpy only warns), so the cast takes the byte
  stored for each kind of non-finite value at each flat index as a parameter.
\<close>

function bit_length :: "int \<Rightarrow> nat" where
  "bit_length n = (if n \<le> 0 then 0 else Suc (bit_length (n div 2)))"
  by pat_completeness auto
termination
  by (relation "measure nat") auto

declare bit_length.simps [simp del]

definition floor_log2 :: "rat \<Rightarrow> int" where
  "floor_log2 q =
     (if 1 \<le> q then int (bit_length \<lfloor>q\<rfloor>) - 1
      else - int (bit_length (\<lceil>1 / q\<rceil> - 1)))"

definition round_half_even :: "rat \<Rightarrow> int" where
  "round_half_even y =
     (let n = \<lfloor>y\<rfloor>; r = y - of_int n
      in if r < 1 / 2 then n
         else if 1 / 2 < r then n + 1
         else if even n then n else n + 1)"

definition ulp32 :: "rat \<Rightarrow> rat" where
  "ulp32 q = 2 powi (max (floor_log2 q) (- 126) - 23)"

definition f32 :: "rat \<Rightarrow> rat" where
  "f32 q = (if q = 0 then 0
            else sgn q * (of_int (round_half_even (\<bar>q\<bar> / ulp32 \<bar>q\<bar>)) * ulp32 \<bar>q\<bar>))"

definition trunc :: "rat \<Rightarrow> int" where
  "trunc q = (if 0 \<le> q then \<lfloor>q\<rfloor> else \<lceil>q\<rceil>)"

definition astype_float32 :: "int ndarray \<Rightarrow> rat ndarray" where
  "astype_float32 img = \<lparr>shape = shape img, data = map (\<lambda>x. f32 (of_int x)) (data img)\<rparr>"

datatype nonfinite = NaN | PosInf | NegInf

definition f32_div :: "rat \<Rightarrow> rat \<Rightarrow> nonfinite + rat" where
  "f32_div x y =
     (if y \<noteq> 0 then Inr (f32 (x / y))
      else if x = 0 then Inl NaN
      else if 0 < x then Inl PosInf
      else Inl NegInf)"

type_synonym nonfinite_cast = "nat \<Rightarrow> nonfinite \<Rightarrow> 8 word"

definition astype_uint8 :: "nonfinite_cast \<Rightarrow> (nonfinite + rat) ndarray \<Rightarrow> 8 word ndarray" where
  "astype_uint8 nf img =
     \<lparr>shape = shape img,
      data = map (\<lambda>(i, q). case q of Inl k \<Rightarrow> nf i k | Inr v \<Rightarrow> word_of_int (trunc v))
               (enumerate 0 (data img))\<rparr>"

subsection \<open>\<open>normalize_to_uint8\<close>\<close>

text \<open>
  \<^verbatim>\<open>
  def normalize_to_uint8(image):
      if np.max(image) == np.min(image):
          return np.zeros_like(image, dtype=np.uint8)
      image = image.astype(np.float32)
      image = 255 * (image - np.min(image)) / (np.max(image) - np.min(image))
      return image.astype(np.uint8)
  \<close>
  \<open>normalize_f32\<close> is the last three lines, on the converted array. When the
  converted maximum and minimum coincide every quotient is \<open>0 / 0\<close>; nothing is
  raised, and the function returns the array of the bytes the cast stores for them.
  The first argument of both functions is that parameter of the cast.
\<close>

definition normalize_f32 :: "nonfinite_cast \<Rightarrow> rat ndarray \<Rightarrow> py_error + 8 word ndarray" where
  "normalize_f32 nf img =
     (case np_min (data img) of Inl e \<Rightarrow> Inl e | Inr mn \<Rightarrow>
       (case np_max (data img) of Inl e \<Rightarrow> Inl e | Inr mx \<Rightarrow>
          let den = f32 (mx - mn);
              num = map (\<lambda>x. f32 (255 * f32 (x - mn))) (data img)
          in Inr (astype_uint8 nf
                    \<lparr>shape = shape img, data = map (\<lambda>n. f32_div n den) num\<rparr>)))"

definition normalize_to_uint8 :: "nonfinite_cast \<Rightarrow> int ndarray \<Rightarrow> py_error + 8 word ndarray" where
  "normalize_to_uint8 nf img =
     (case np_max (data img) of Inl e \<Rightarrow> Inl e | Inr mx \<Rightarrow>
       (case np_min (data img) of Inl e \<Rightarrow> Inl e | Inr mn \<Rightarrow>
          if mx = mn then Inr (zeros_like img)
          else normalize_f32 nf (astype_float32 img)))"

text \<open>
  The array returned by \<open>normalize_to_uint8\<close> read as an input image again: the same
  shape, each byte as the integer it holds.
\<close>

definition samples_of :: "8 word ndarray \<Rightarrow> int ndarray" where
  "samples_of img = \<lparr>shape = shape img, data = map uint (data img)\<rparr>"

text \<open>
  The rescaling as the specification words it, for comparison with the code:
  \<open>output = round(255 * (input - min(input)) / (max(input) - min(input)))\<close>, cast to
  8-bit unsigned, with Python's \<open>round\<close> (ties to even).
\<close>

definition rescale_round_spec :: "int ndarray \<Rightarrow> 8 word ndarray" where
  "rescale_round_spec img =
     (let m = Min (set (data img)); M = Max (set (data img))
      in \<lparr>shape = shape img,
          data = map (\<lambda>x. word_of_int (round_half_even (255 * of_int (x - m) / of_int (M - m))))
                   (data img)\<rparr>)"

subsection \<open>\<open>estimate_bone_age\<close> and the confidence band\<close>

text \<open>
  \<^verbatim>\<open>
  def estimate_bone_age(image_array):
      return 120
  ...
  bone_age = estimate_bone_age(image)
  confidence_low = max(0, bone_age - 1.5)
  confidence_high = min(216, bone_age + 1.5)
  \<close>
  The estimate is a Python \<open>int\<close> and \<open>1.5\<close> a \<open>float\<close>: \<open>bone_age - 1.5\<close> converts the
  integer to double precision (rounding to nearest, ties to even, and raising
  \<open>OverflowError\<close> when the result leaves the binary64 range) and subtracts in double
  precision. \<open>f64\<close> is the rounding to binary64, a 53-bit significand, defined as
  \<open>f32\<close> is. \<open>max(0, y)\<close> and \<open>min(216, y)\<close> compare the integer with the double and
  return one of the two.
\<close>

definition estimate_bone_age :: "'a ndarray \<Rightarrow> int" where
  "estimate_bone_age image_array = 120"

definition ulp64 :: "rat \<Rightarrow> rat" where
  "ulp64 q = 2 powi (max (floor_log2 q) (- 1022) - 52)"

definition f64 :: "rat \<Rightarrow> rat" where
  "f64 q = (if q = 0 then 0
            else sgn q * (of_int (round_half_even (\<bar>q\<bar> / ulp64 \<bar>q\<bar>)) * ulp64 \<bar>q\<bar>))"

definition float_of_int :: "int \<Rightarrow> py_error + rat" where
  "float_of_int n =
     (let x = f64 (of_int n) in if 2 ^ 1024 \<le> \<bar>x\<bar> then Inl OverflowError else Inr x)"

definition confidence_low :: "int \<Rightarrow> py_error + rat" where
  "confidence_low bone_age =
     (case float_of_int bone_age of
        Inl e \<Rightarrow> Inl e
      | Inr x \<Rightarrow> Inr (max 0 (f64 (x - 3 / 2))))"

definition confidence_high :: "int \<Rightarrow> py_error + rat" where
  "confidence_high bone_age =
     (case float_of_int bone_age of
        Inl e \<Rightarrow> Inl e
      | Inr x \<Rightarrow> Inr (min 216 (f64 (x + 3 / 2))))"

subsection \<open>The DICOM branch\<close>

text \<open>
  \<^verbatim>\<open>
  if file_ext == "dcm":
      dicom_data = pydicom.dcmread(uploaded_file)
      for tag in ["PatientName", "PatientID", "PatientBirthDate"]:
          if tag in dicom_data:
              dicom_data.data_element(tag).value = ""
      image = dicom_data.pixel_array
      image = normalize_to_uint8(image)
      st.image(image, caption="DICOM Image", width=200)
  ...
  bone_age = estimate_bone_age(image)
  \<close>
  A decoded data set maps keywords to data elements; an element has a value
  representation and a value. \<open>tag in dicom_data\<close> tests presence,
  \<open>data_element(tag)\<close> returns the element or \<open>None\<close>, and assigning \<open>.value\<close> on
  \<open>None\<close> would raise \<open>AttributeError\<close>. The pixel data is kept beside the elements;
  \<open>pixel_array\<close> raises when there is none.

  The loop and the statements after it mutate the data set and act on the page. The
  model passes the data set and the list of steps so far through them, and returns the
  steps also when a statement raises. A step is an action together with the data set
  \<open>dicom_data\<close> as it is when the action is done.
\<close>

record data_element =
  VR :: string
  elem_value :: string

type_synonym dataset = "string \<rightharpoonup> data_element"

record dicom_file =
  elements :: dataset
  pixels :: "int ndarray option"

datatype event =
    FieldCleared string   \<comment> \<open>loop body done for a tag that is present: value set to \<open>""\<close>\<close>
  | FieldAbsent string    \<comment> \<open>loop body done for a tag that is absent: nothing to do\<close>
  | PixelArrayRead        \<comment> \<open>\<open>dicom_data.pixel_array\<close>\<close>
  | ImageDisplayed "8 word ndarray"   \<comment> \<open>\<open>st.image(image, ...)\<close>\<close>
  | EstimatorCalled "8 word ndarray"  \<comment> \<open>\<open>estimate_bone_age(image)\<close>\<close>

type_synonym step = "event \<times> dataset"

definition contains :: "dataset \<Rightarrow> string \<Rightarrow> bool" where
  "contains ds tag = (ds tag \<noteq> None)"

definition set_value :: "dataset \<Rightarrow> string \<Rightarrow> string \<Rightarrow> py_error + dataset" where
  "set_value ds tag v =
     (case ds tag of
        None \<Rightarrow> Inl AttributeError
      | Some e \<Rightarrow> Inr (ds(tag \<mapsto> e\<lparr>elem_value := v\<rparr>)))"

definition identity_tags :: "string list" where
  "identity_tags = [''PatientName'', ''PatientID'', ''PatientBirthDate'']"

fun scrub :: "string list \<Rightarrow> dataset \<Rightarrow> step list \<Rightarrow> step list \<times> (py_error + dataset)" where
  "scrub [] ds tr = (tr, Inr ds)"
| "scrub (tag # tags) ds tr =
     (if contains ds tag then
        (case set_value ds tag [] of
           Inl e \<Rightarrow> (tr, Inl e)
         | Inr ds' \<Rightarrow> scrub tags ds' (tr @ [(FieldCleared tag, ds')]))
      else scrub tags ds (tr @ [(FieldAbsent tag, ds)]))"

definition pixel_array :: "dicom_file \<Rightarrow> py_error + int ndarray" where
  "pixel_array f = (case pixels f of None \<Rightarrow> Inl AttributeError | Some a \<Rightarrow> Inr a)"

definition dicom_branch :: "nonfinite_cast \<Rightarrow> dicom_file \<Rightarrow> step list \<times> (py_error + int)" where
  "dicom_branch nf f =
     (case scrub identity_tags (elements f) [] of
        (tr, Inl e) \<Rightarrow> (tr, Inl e)
      | (tr, Inr ds) \<Rightarrow>
          (case pixel_array (f\<lparr>elements := ds\<rparr>) of
             Inl e \<Rightarrow> (tr @ [(PixelArrayRead, ds)], Inl e)
           | Inr img \<Rightarrow>
               (case normalize_to_uint8 nf img of
                  Inl e \<Rightarrow> (tr @ [(PixelArrayRead, ds)], Inl e)
                | Inr img' \<Rightarrow>
                    (tr @ [(PixelArrayRead, ds), (ImageDisplayed img', ds),
                           (EstimatorCalled img', ds)],
                     Inr (estimate_bone_age img')))))"

text \<open>The actions that extract, show or pass on pixel data.\<close>

fun uses_pixels :: "event \<Rightarrow> bool" where
  "uses_pixels PixelArrayRead = True"
| "uses_pixels (ImageDisplayed img) = True"
| "uses_pixels (EstimatorCalled img) = True"
| "uses_pixels e = False"

text \<open>The scrub has completed in a list of actions when the loop body is done for each of the tags.\<close>

definition scrub_done :: "event list \<Rightarrow> bool" where
  "scrub_done tr = list_all (\<lambda>tag. FieldCleared tag \<in> set tr \<or> FieldAbsent tag \<in> set tr) identity_tags"

text \<open>A data set holds no identity value when each of the three fields is absent or empty.\<close>

definition identity_cleared :: "dataset \<Rightarrow> bool" where
  "identity_cleared ds =
     list_all (\<lambda>tag. case ds tag of None \<Rightarrow> True | Some el \<Rightarrow> elem_value el = []) identity_tags"

text \<open>The data set the scrub leaves: the three identity fields emptied where present.\<close>

definition scrubbed :: "dataset \<Rightarrow> dataset" where
  "scrubbed ds =
     (\<lambda>k. if k \<in> set identity_tags then map_option (\<lambda>e. e\<lparr>elem_value := []\<rparr>) (ds k) else ds k)"

subsection \<open>The report's patient name and the download file name\<close>

text \<open>
  \<^verbatim>\<open>
  st.text_input("What is your name?", key="name")
  ...
  patient_name = st.session_state.get("name", "patient")
  ...
  pdf.cell(200, 10, txt=f"Patient Name: {patient_name}", ln=True)
  ...
  safe_filename = f"{patient_name.strip().replace(' ', '_')}_report.pdf"
  \<close>
  A Python \<open>str\<close> is a sequence of Unicode code points, modelled as a list of
  naturals; \<open>py_str\<close> embeds an ASCII literal. \<open>str.strip()\<close> removes, at both ends, the
  code points for which \<open>str.isspace\<close> holds; \<open>str.replace\<close> with one-character
  arguments replaces every occurrence of the character.

  The session state maps keys to values. A widget with a key stores its current value
  (the text in the field, empty until something is typed) under that key each time the
  script runs, so the state in which the report is composed is the state left by
  \<open>text_input\<close>; \<open>session_state.get(key, default)\<close> is \<open>dict_get\<close>.
\<close>

type_synonym pystr = "nat list"

type_synonym session_state = "string \<rightharpoonup> pystr"

definition py_str :: "string \<Rightarrow> pystr" where
  "py_str s = map of_char s"

definition isspace :: "nat \<Rightarrow> bool" where
  "isspace c =
     (9 \<le> c \<and> c \<le> 13 \<or> 28 \<le> c \<and> c \<le> 32 \<or> c = 133 \<or> c = 160 \<or> c = 5760
      \<or> 8192 \<le> c \<and> c \<le> 8202 \<or> c = 8232 \<or> c = 8233 \<or> c = 8239 \<or> c = 8287
      \<or> c = 12288)"

definition strip :: "pystr \<Rightarrow> pystr" where
  "strip s = rev (dropWhile isspace (rev (dropWhile isspace s)))"

definition replace_char :: "nat \<Rightarrow> nat \<Rightarrow> pystr \<Rightarrow> pystr" where
  "replace_char old new s = map (\<lambda>c. if c = old then new else c) s"

definition safe_filename :: "pystr \<Rightarrow> pystr" where
  "safe_filename patient_name =
     replace_char 32 95 (strip patient_name) @ py_str ''_report.pdf''"


definition dict_get :: "session_state \<Rightarrow> string \<Rightarrow> pystr \<Rightarrow> pystr" where
  "dict_get ss key dflt = (case ss key of None \<Rightarrow> dflt | Some v \<Rightarrow> v)"

definition patient_name :: "session_state \<Rightarrow> pystr" where
  "patient_name ss = dict_get ss ''name'' (py_str ''patient'')"




section \<open>Properties\<close>

subsection \<open>Rounding to single precision\<close>

lemma bit_length_lower: "0 < n \<Longrightarrow> 2 ^ (bit_length n - 1) \<le> n"
proof (induction n rule: bit_length.induct)
  case (1 n)
  have bl: "bit_length n = Suc (bit_length (n div 2))"
    using 1(2) by (subst bit_length.simps) simp
  show ?case
  proof (cases "n div 2 \<le> 0")
    case True
    then have "bit_length (n div 2) = 0" by (subst bit_length.simps) simp
    then show ?thesis using 1(2) bl by simp
  next
    case False
    then have pos: "0 < n div 2" by simp
    with 1 have ih: "2 ^ (bit_length (n div 2) - 1) \<le> n div 2" by simp
    have "0 < bit_length (n div 2)" using pos by (subst bit_length.simps) simp
    then have "2 ^ (bit_length n - 1) = 2 * (2::int) ^ (bit_length (n div 2) - 1)"
      using bl by (cases "bit_length (n div 2)") simp_all
    also have "\<dots> \<le> 2 * (n div 2)" using ih by simp
    also have "\<dots> \<le> n" by simp
    finally show ?thesis .
  qed
qed

lemma bit_length_upper: "n < 2 ^ bit_length n"
proof (induction n rule: bit_length.induct)
  case (1 n)
  show ?case
  proof (cases "n \<le> 0")
    case True
    have "(0::int) < 2 ^ bit_length n" by simp
    with True show ?thesis by linarith
  next
    case False
    with 1 have ih: "n div 2 < 2 ^ bit_length (n div 2)" by simp
    have bl: "bit_length n = Suc (bit_length (n div 2))"
      using False by (subst bit_length.simps) simp
    have "n < 2 * (n div 2) + 2" by presburger
    also have "\<dots> \<le> 2 * 2 ^ bit_length (n div 2)" using ih by simp
    finally show ?thesis using bl by simp
  qed
qed

lemma floor_log2_le:
  assumes "0 < q"
  shows "2 powi floor_log2 q \<le> q"
proof (cases "1 \<le> q")
  case True
  define n where "n = \<lfloor>q\<rfloor>"
  have npos: "0 < n" using True by (simp add: n_def)
  have e: "floor_log2 q = int (bit_length n - 1)"
  proof -
    have "0 < bit_length n" using npos by (subst bit_length.simps) simp
    then show ?thesis using True by (simp add: floor_log2_def n_def)
  qed
  have "(2::rat) powi floor_log2 q = 2 ^ (bit_length n - 1)"
    by (simp add: e)
  also have "\<dots> = of_int (2 ^ (bit_length n - 1))" by simp
  also have "\<dots> \<le> of_int n" using bit_length_lower [OF npos] by (simp only: of_int_le_iff)
  also have "\<dots> \<le> q" by (simp add: n_def)
  finally show ?thesis .
next
  case False
  define c where "c = \<lceil>1 / q\<rceil>"
  define k where "k = bit_length (c - 1)"
  have e: "floor_log2 q = - int k" using False by (simp add: floor_log2_def k_def c_def)
  have "1 / q \<le> of_int c" by (simp add: c_def)
  have "c - 1 < 2 ^ k" unfolding k_def by (rule bit_length_upper)
  then have "c \<le> 2 ^ k" by simp
  then have "(of_int c :: rat) \<le> of_int (2 ^ k)" by (simp only: of_int_le_iff)
  then have "(of_int c :: rat) \<le> 2 ^ k" by simp
  with \<open>1 / q \<le> of_int c\<close> have "1 / q \<le> 2 ^ k" by linarith
  then have "1 \<le> 2 ^ k * q" using assms by (simp add: field_simps)
  then have "1 / 2 ^ k \<le> q" by (simp add: field_simps)
  then show ?thesis by (simp add: e power_int_minus field_simps)
qed

lemma round_half_even_err: "\<bar>of_int (round_half_even y) - y\<bar> \<le> 1 / 2"
proof -
  have "of_int \<lfloor>y\<rfloor> \<le> y" "y < of_int \<lfloor>y\<rfloor> + 1" by linarith+
  then show ?thesis
    by (auto simp: round_half_even_def Let_def)
qed

lemma round_half_even_int [simp]: "round_half_even (of_int n) = n"
  by (simp add: round_half_even_def)

lemma f32_zero [simp]: "f32 0 = 0"
  by (simp add: f32_def)

lemma f32_pos_eq: "0 < q \<Longrightarrow> f32 q = of_int (round_half_even (q / ulp32 q)) * ulp32 q"
  by (simp add: f32_def)

lemma f32_minus: "f32 (- q) = - f32 q"
  by (simp add: f32_def)

lemma ulp32_pos: "0 < ulp32 q"
  by (simp add: ulp32_def)

lemma f32_nat_exact:
  assumes "0 < n" "n \<le> 2 ^ 24"
  shows "f32 (of_int n) = of_int n"
proof -
  let ?q = "of_int n :: rat"
  have qpos: "0 < ?q" using assms by simp
  have q1: "1 \<le> ?q" using assms by simp
  define e where "e = floor_log2 ?q"
  have e0: "0 \<le> e"
  proof -
    have "0 < bit_length n" using assms by (subst bit_length.simps) simp
    then show ?thesis using q1 by (simp add: e_def floor_log2_def)
  qed
  have le: "2 powi e \<le> ?q" unfolding e_def by (rule floor_log2_le [OF qpos])
  have "?q \<le> of_int (2 ^ 24)" using assms(2) by (simp only: of_int_le_iff)
  then have "?q \<le> 2 powi 24" by simp
  with le have "(2::rat) powi e \<le> 2 powi 24" by (rule order_trans)
  then have e24: "e \<le> 24" by (rule power_int_le_imp_le_exp [rotated]) simp_all
  have u: "ulp32 ?q = 2 powi (e - 23)" using e0 by (simp add: ulp32_def e_def)
  show ?thesis
  proof (cases "e \<le> 23")
    case True
    define k where "k = nat (23 - e)"
    have "(2::rat) powi (e - 23) = 1 / 2 ^ k"
      using True by (simp add: k_def power_int_def field_simps)
    then have "?q / ulp32 ?q = of_int (n * 2 ^ k)" by (simp add: u)
    then have "round_half_even (?q / ulp32 ?q) = n * 2 ^ k" by (simp only: round_half_even_int)
    then show ?thesis using \<open>(2::rat) powi (e - 23) = 1 / 2 ^ k\<close> by (simp add: f32_pos_eq [OF qpos] u)
  next
    case False
    with e24 have e: "e = 24" by simp
    have "(2::rat) ^ 24 \<le> ?q" using le by (simp add: e)
    then have "(of_int (2 ^ 24) :: rat) \<le> of_int n" by simp
    then have "2 ^ 24 \<le> n" by (simp only: of_int_le_iff)
    with assms have n: "n = 2 ^ 24" by simp
    have u2: "ulp32 ?q = 2" by (simp add: u e)
    have "?q / 2 = of_int (2 ^ 23)" by (simp add: n)
    then have "round_half_even (?q / 2) = 2 ^ 23" by (simp only: round_half_even_int)
    then have "f32 ?q = of_int (2 ^ 23) * 2" by (simp only: f32_pos_eq [OF qpos] u2)
    then show ?thesis by (simp add: n)
  qed
qed

lemma f32_int_exact:
  assumes "\<bar>n\<bar> \<le> 2 ^ 24"
  shows "f32 (of_int n) = of_int n"
proof -
  consider "n = 0" | "0 < n" | "n < 0" by linarith
  then show ?thesis
  proof cases
    case 1 then show ?thesis by simp
  next
    case 2 with assms show ?thesis by (simp add: f32_nat_exact)
  next
    case 3
    with assms have "f32 (of_int (- n)) = of_int (- n)" by (intro f32_nat_exact) simp_all
    then show ?thesis by (simp add: f32_minus)
  qed
qed

lemma f32_err_small:
  assumes "0 < q" "q < 256"
  shows "\<bar>f32 q - q\<bar> \<le> 1 / 2 ^ 17"
proof -
  define e where "e = max (floor_log2 q) (- 126)"
  define u where "u = ulp32 q"
  have upos: "0 < u" by (simp add: u_def ulp32_pos)
  have "2 powi floor_log2 q \<le> q" by (rule floor_log2_le [OF assms(1)])
  with assms(2) have "(2::rat) powi floor_log2 q < 2 powi 8" by simp
  then have "floor_log2 q < 8" by (rule power_int_le_imp_less_exp [rotated]) simp_all
  then have "e - 23 \<le> - 16" by (simp add: e_def)
  then have "(2::rat) powi (e - 23) \<le> 2 powi (- 16)" by (intro power_int_increasing) simp_all
  then have u16: "u \<le> 1 / 2 ^ 16" by (simp add: u_def ulp32_def e_def power_int_minus field_simps)
  have "f32 q - q = (of_int (round_half_even (q / u)) - q / u) * u"
    using upos by (simp add: f32_pos_eq [OF assms(1)] u_def field_simps)
  then have "\<bar>f32 q - q\<bar> = \<bar>of_int (round_half_even (q / u)) - q / u\<bar> * u"
    using upos by (simp add: abs_mult)
  also have "\<dots> \<le> (1 / 2) * u"
    using round_half_even_err [of "q / u"] upos by (intro mult_right_mono) simp_all
  also have "\<dots> \<le> 1 / 2 ^ 17" using u16 by simp
  finally show ?thesis .
qed

lemma trunc_f32_div:
  assumes "0 \<le> a" "a \<le> 255 * b" "0 < b" "b \<le> 65793"
  shows "trunc (f32 (of_int a / of_int b)) = a div b"
proof (cases "b dvd a")
  case True
  then obtain k where k: "a = b * k" ..
  with assms have k0: "0 \<le> k" "k \<le> 255"
    by (simp_all add: zero_le_mult_iff)
  have "(of_int a / of_int b :: rat) = of_int k" using assms(3) by (simp add: k)
  moreover have "f32 (of_int k) = of_int k" using k0 by (intro f32_int_exact) simp
  moreover have "a div b = k" using assms(3) by (simp add: k)
  ultimately show ?thesis using k0 by (simp add: trunc_def)
next
  case False
  define k where "k = a div b"
  define r where "r = a mod b"
  define q where "q = (of_int a / of_int b :: rat)"
  have a: "a = b * k + r" by (simp add: k_def r_def)
  have "r \<noteq> 0" using False by (simp add: r_def dvd_eq_mod_eq_0)
  moreover have "0 \<le> r" "r < b"
    using assms(3) by (simp_all add: r_def)
  ultimately have r: "1 \<le> r" "r \<le> b - 1" by linarith+
  have k0: "0 \<le> k" using assms by (simp add: k_def pos_imp_zdiv_nonneg_iff)
  have k254: "k \<le> 254"
  proof -
    have "b * k + r \<le> b * 255" using assms(2) a by (simp add: mult.commute)
    with r(1) have "b * k < b * 255" by linarith
    then have "k < 255" using assms(3) by (simp only: mult_less_cancel_left_pos)
    then show ?thesis by simp
  qed
  have bpos: "(0::rat) < of_int b" using assms(3) by simp
  have qeq: "q = of_int k + of_int r / of_int b"
    using bpos by (simp add: q_def a field_simps)
  have inv: "(1::rat) / 2 ^ 17 < 1 / of_int b"
  proof -
    have "(of_int b :: rat) \<le> of_int 65793" using assms(4) by (simp only: of_int_le_iff)
    then have "(of_int b :: rat) < 2 ^ 17" by simp
    then show ?thesis using bpos by (simp add: field_simps)
  qed
  have lo: "of_int k + 1 / of_int b \<le> q"
  proof -
    have "(1::rat) \<le> of_int r" using r(1) by simp
    then have "(1::rat) / of_int b \<le> of_int r / of_int b"
      using bpos by (simp add: divide_right_mono)
    then show ?thesis by (simp add: qeq)
  qed
  have hi: "q \<le> of_int k + 1 - 1 / of_int b"
  proof -
    have "(of_int r :: rat) \<le> of_int (b - 1)" using r(2) by (simp only: of_int_le_iff)
    then have "(of_int r :: rat) / of_int b \<le> of_int (b - 1) / of_int b"
      using bpos by (simp add: divide_right_mono)
    also have "\<dots> = 1 - 1 / of_int b" using bpos by (simp add: field_simps)
    finally show ?thesis by (simp add: qeq)
  qed
  have ipos: "(0::rat) < 1 / of_int b" using bpos by simp
  have rk0: "(0::rat) \<le> of_int k" using k0 by simp
  have rk254: "(of_int k :: rat) \<le> 254"
  proof -
    have "(of_int k :: rat) \<le> of_int 254" using k254 by (simp only: of_int_le_iff)
    then show ?thesis by simp
  qed
  have qpos: "0 < q" using lo rk0 ipos by linarith
  have q256: "q < 256" using hi rk254 ipos by linarith
  have err: "\<bar>f32 q - q\<bar> \<le> 1 / 2 ^ 17" by (rule f32_err_small [OF qpos q256])
  have below: "of_int k < f32 q" using err lo inv by linarith
  have above: "f32 q < of_int k + 1" using err hi inv by linarith
  have fl: "\<lfloor>f32 q\<rfloor> = k" using below above by (intro floor_unique) simp_all
  have "0 \<le> f32 q" using below rk0 by linarith
  then show ?thesis using fl by (simp add: trunc_def q_def k_def)
qed

subsection \<open>The rescaling is exact on 8- and 16-bit samples\<close>

lemma np_max_eq: "xs \<noteq> [] \<Longrightarrow> np_max xs = Inr (Max (set xs))"
  by (cases xs) (simp_all add: np_max_def Max.set_eq_fold [symmetric])

lemma np_min_eq: "xs \<noteq> [] \<Longrightarrow> np_min xs = Inr (Min (set xs))"
  by (cases xs) (simp_all add: np_min_def Min.set_eq_fold [symmetric])

lemma Min_of_int: 
  assumes "xs \<noteq> []"
  shows "Min (set (map rat_of_int xs)) = of_int (Min (set xs))"
proof -
  have "mono rat_of_int" by (simp add: mono_def)
  then have "rat_of_int (Min (set xs)) = Min (rat_of_int ` set xs)"
    using assms by (intro mono_Min_commute) simp_all
  then show ?thesis by simp
qed

lemma Max_of_int: 
  assumes "xs \<noteq> []"
  shows "Max (set (map rat_of_int xs)) = of_int (Max (set xs))"
proof -
  have "mono rat_of_int" by (simp add: mono_def)
  then have "rat_of_int (Max (set xs)) = Max (rat_of_int ` set xs)"
    using assms by (intro mono_Max_commute) simp_all
  then show ?thesis by simp
qed

lemma f32_of_int_small: "0 \<le> n \<Longrightarrow> n \<le> 2 ^ 24 \<Longrightarrow> f32 (of_int n) = of_int n"
  by (rule f32_int_exact) simp

lemma enumerate_finite_cast:
  "map (\<lambda>(i, q). case q of Inl k \<Rightarrow> nf i k | Inr v \<Rightarrow> g v) (enumerate n (map (\<lambda>y. Inr (h y)) ys))
     = map (\<lambda>y. g (h y)) ys"
  by (induction ys arbitrary: n) simp_all

lemma f32_div_nonzero: "y \<noteq> 0 \<Longrightarrow> f32_div x y = Inr (f32 (x / y))"
  by (simp add: f32_div_def)

lemma normalize_exact:
  fixes a :: "int ndarray"
  defines "m \<equiv> Min (set (data a))" and "M \<equiv> Max (set (data a))"
  assumes ne: "data a \<noteq> []"
    and lt: "m < M"
    and rng: "\<forall>x\<in>set (data a). \<bar>x\<bar> \<le> 2 ^ 24"
    and span: "255 * (M - m) \<le> 2 ^ 24"
  shows "normalize_to_uint8 nf a =
         Inr \<lparr>shape = shape a, data = map (\<lambda>x. word_of_int ((255 * (x - m)) div (M - m))) (data a)\<rparr>"
proof -
  let ?xs = "data a"
  have conv: "map (\<lambda>x. f32 (of_int x)) ?xs = map rat_of_int ?xs"
    using rng by (simp add: f32_int_exact)
  have fne: "map rat_of_int ?xs \<noteq> []" using ne by simp
  have fmin: "np_min (map rat_of_int ?xs) = Inr (of_int m)"
    by (simp only: np_min_eq [OF fne] Min_of_int [OF ne] m_def)
  have fmax: "np_max (map rat_of_int ?xs) = Inr (of_int M)"
    by (simp only: np_max_eq [OF fne] Max_of_int [OF ne] M_def)
  have span': "M - m \<le> 2 ^ 24" using span lt by simp
  have den: "f32 (of_int M - of_int m) = of_int (M - m)"
    using lt span' f32_of_int_small [of "M - m"] by simp
  have elem: "word_of_int (trunc (f32 (f32 (255 * f32 (of_int x - of_int m)) / of_int (M - m))))
              = (word_of_int ((255 * (x - m)) div (M - m)) :: 8 word)"
    if x: "x \<in> set ?xs" for x
  proof -
    have lo: "m \<le> x" using x by (simp add: m_def)
    have hi: "x \<le> M" using x by (simp add: M_def)
    have d: "0 \<le> x - m" "x - m \<le> M - m" using lo hi by simp_all
    have s1: "f32 (of_int x - of_int m) = of_int (x - m)"
      using d span' f32_of_int_small [of "x - m"] by simp
    have le: "255 * (x - m) \<le> 255 * (M - m)" using d by simp
    have s2: "f32 (255 * of_int (x - m)) = of_int (255 * (x - m))"
      using d le span f32_of_int_small [of "255 * (x - m)"] by simp
    have b: "M - m \<le> 65793" using span by simp
    have "trunc (f32 (of_int (255 * (x - m)) / of_int (M - m))) = (255 * (x - m)) div (M - m)"
      using d le lt b by (intro trunc_f32_div) simp_all
    then show ?thesis by (simp only: s1 s2)
  qed
  have dne: "rat_of_int (M - m) \<noteq> 0" using lt by simp
  define h where "h = (\<lambda>x. f32 (f32 (255 * f32 (rat_of_int x - rat_of_int m)) / rat_of_int (M - m)))"
  have quot: "f32_div (f32 (255 * f32 (rat_of_int x - rat_of_int m))) (rat_of_int (M - m)) = Inr (h x)" for x
    unfolding h_def by (rule f32_div_nonzero [OF dne])
  have "normalize_f32 nf (astype_float32 a) =
        Inr (astype_uint8 nf \<lparr>shape = shape a, data = map (\<lambda>x. Inr (h x)) ?xs\<rparr>)"
    by (simp only: normalize_f32_def astype_float32_def conv fmin fmax den Let_def sum.case
        ndarray.simps list.map_comp o_def quot)
  also have "\<dots> = Inr \<lparr>shape = shape a, data = map (\<lambda>x. word_of_int (trunc (h x))) ?xs\<rparr>"
    by (simp only: astype_uint8_def ndarray.simps enumerate_finite_cast)
  also have "\<dots> = Inr \<lparr>shape = shape a, data = map (\<lambda>x. word_of_int ((255 * (x - m)) div (M - m))) ?xs\<rparr>"
    using elem by (simp add: h_def)
  finally have "normalize_f32 nf (astype_float32 a) =
        Inr \<lparr>shape = shape a, data = map (\<lambda>x. word_of_int ((255 * (x - m)) div (M - m))) ?xs\<rparr>" .
  moreover have "normalize_to_uint8 nf a = normalize_f32 nf (astype_float32 a)"
    using lt ne by (simp add: normalize_to_uint8_def np_max_eq np_min_eq m_def M_def)
  ultimately show ?thesis by simp
qed

subsection \<open>\<open>normalize_to_uint8\<close>\<close>

text \<open>
  C1. For every non-empty array whose samples are all equal (a flat image),
  \<open>normalize_to_uint8\<close> returns an all-zero array of the same shape with 8-bit
  unsigned elements.
\<close>

theorem normalize_flat_zero:
  assumes "data a \<noteq> []" and "\<forall>x\<in>set (data a). x = c"
  shows "normalize_to_uint8 nf a = Inr \<lparr>shape = shape a, data = replicate (length (data a)) 0\<rparr>"
proof -
  have "set (data a) = {c}" using assms by (cases "data a") auto
  then show ?thesis
    using assms(1) by (simp add: normalize_to_uint8_def np_max_eq np_min_eq zeros_like_def)
qed

text \<open>C1 at a flat 2 x 2 image of value 500.\<close>

theorem normalize_flat_zero_witness:
  "data \<lparr>shape = [2, 2], data = [500, 500, 500, 500 :: int]\<rparr> \<noteq> []
   \<and> list_all (\<lambda>x. x = 500) (data \<lparr>shape = [2, 2], data = [500, 500, 500, 500 :: int]\<rparr>)
   \<and> normalize_to_uint8 (\<lambda>i k. 0) \<lparr>shape = [2, 2], data = [500, 500, 500, 500]\<rparr>
       = Inr \<lparr>shape = [2, 2], data = [0, 0, 0, 0]\<rparr>"
  using normalize_flat_zero [of "\<lparr>shape = [2, 2], data = [500, 500, 500, 500]\<rparr>" 500 "\<lambda>i k. 0"]
  by (simp add: numeral_eq_Suc)

text \<open>A small image used in the examples below: the samples \<open>0, 4, 7\<close>.\<close>

lemma normalize_0_4_7:
  "normalize_to_uint8 nf \<lparr>shape = [3], data = [0, 4, 7]\<rparr> = Inr \<lparr>shape = [3], data = [0, 145, 255]\<rparr>"
  using normalize_exact [of "\<lparr>shape = [3], data = [0, 4, 7]\<rparr>" nf] by simp

text \<open>
  C2 as stated fails: the cast \<open>astype(np.uint8)\<close> truncates, it does not round. On
  the samples \<open>0, 4, 7\<close> the middle element is \<open>255 * 4 / 7 = 145.71...\<close>: the
  code stores 145 where the rounded rescaling of the specification gives 146.
\<close>

theorem normalize_round_counterexample:
  "normalize_to_uint8 (\<lambda>i k. 0) \<lparr>shape = [3], data = [0, 4, 7]\<rparr> = Inr \<lparr>shape = [3], data = [0, 145, 255]\<rparr>
   \<and> rescale_round_spec \<lparr>shape = [3], data = [0, 4, 7]\<rparr> = \<lparr>shape = [3], data = [0, 146, 255]\<rparr>"
proof
  show "normalize_to_uint8 (\<lambda>i k. 0) \<lparr>shape = [3], data = [0, 4, 7]\<rparr> = Inr \<lparr>shape = [3], data = [0, 145, 255]\<rparr>"
    by (rule normalize_0_4_7)
  have "round_half_even (1020 / 7) = 146" "round_half_even 255 = 255" "round_half_even 0 = 0"
    by code_simp+
  then show "rescale_round_spec \<lparr>shape = [3], data = [0, 4, 7]\<rparr> = \<lparr>shape = [3], data = [0, 146, 255]\<rparr>"
    by (simp add: rescale_round_spec_def)
qed

text \<open>
  C2, amended. For every non-empty array of integer samples of magnitude at most
  \<open>2^24\<close> whose minimum \<open>m\<close> and maximum \<open>M\<close> satisfy \<open>m < M\<close> and
  \<open>255 * (M - m) \<le> 2^24\<close> (every 8-bit and 16-bit pixel array is one), each output
  element is \<open>floor(255 * (x - m) / (M - m))\<close> (truncation, not rounding) of the
  corresponding input element \<open>x\<close>, as an 8-bit unsigned value; it depends on
  \<open>x\<close>, \<open>m\<close> and \<open>M\<close> only, and the shape is kept.
\<close>

theorem normalize_truncates:
  fixes a :: "int ndarray"
  defines "m \<equiv> Min (set (data a))" and "M \<equiv> Max (set (data a))"
  assumes "data a \<noteq> []"
    and "m < M"
    and "\<forall>x\<in>set (data a). \<bar>x\<bar> \<le> 2 ^ 24"
    and "255 * (M - m) \<le> 2 ^ 24"
  shows "normalize_to_uint8 nf a =
         Inr \<lparr>shape = shape a,
              data = map (\<lambda>x. word_of_int \<lfloor>255 * rat_of_int (x - m) / rat_of_int (M - m)\<rfloor>) (data a)\<rparr>"
proof -
  have "\<lfloor>255 * rat_of_int (x - m) / rat_of_int (M - m)\<rfloor> = (255 * (x - m)) div (M - m)" for x
  proof -
    have "255 * rat_of_int (x - m) = rat_of_int (255 * (x - m))" by simp
    then show ?thesis by (simp only: floor_divide_of_int_eq)
  qed
  then show ?thesis
    using normalize_exact [of a nf] assms by (simp add: m_def M_def)
qed

text \<open>The amended C2 at the samples \<open>0, 4, 7\<close>.\<close>

theorem normalize_truncates_witness:
  "data \<lparr>shape = [3], data = [0, 4, 7 :: int]\<rparr> \<noteq> []
   \<and> Min (set (data \<lparr>shape = [3], data = [0, 4, 7 :: int]\<rparr>))
       < Max (set (data \<lparr>shape = [3], data = [0, 4, 7 :: int]\<rparr>))
   \<and> list_all (\<lambda>x. \<bar>x\<bar> \<le> 2 ^ 24) (data \<lparr>shape = [3], data = [0, 4, 7 :: int]\<rparr>)
   \<and> 255 * (Max (set (data \<lparr>shape = [3], data = [0, 4, 7 :: int]\<rparr>))
             - Min (set (data \<lparr>shape = [3], data = [0, 4, 7 :: int]\<rparr>))) \<le> 2 ^ 24
   \<and> normalize_to_uint8 (\<lambda>i k. 0) \<lparr>shape = [3], data = [0, 4, 7]\<rparr>
       = Inr \<lparr>shape = [3], data = [0, word_of_int \<lfloor>1020 / 7 :: rat\<rfloor>, 255]\<rparr>"
  using normalize_truncates [of "\<lparr>shape = [3], data = [0, 4, 7]\<rparr>" "\<lambda>i k. 0"]
  by simp

text \<open>
  C3 as stated fails as soon as \<open>255 * (M - m)\<close> is no longer exact in single
  precision. On the two samples \<open>0\<close> and \<open>65795\<close> the product
  \<open>255 * 65795 = 16777725\<close> lies half-way between two binary32 values and is rounded to
  \<open>16777724\<close>, the quotient \<open>16777724 / 65795\<close> is rounded to \<open>255 - 2^-16\<close>, and the
  cast stores 254: the maximum of the output is 254.
\<close>

theorem normalize_max_counterexample:
  "normalize_to_uint8 (\<lambda>i k. 0) \<lparr>shape = [2], data = [0, 65795]\<rparr> = Inr \<lparr>shape = [2], data = [0, 254]\<rparr>
   \<and> np_max [0, 254 :: 8 word] \<noteq> Inr 255"
proof
  have c: "f32 65795 = 65795" by code_simp
  have n: "f32 16777725 = 16777724" by code_simp
  have q: "f32 (16777724 / 65795) = 16711679 / 65536" by code_simp
  have t: "trunc (16711679 / 65536) = 254" "trunc 0 = 0" by code_simp+
  show "normalize_to_uint8 (\<lambda>i k. 0) \<lparr>shape = [2], data = [0, 65795]\<rparr> = Inr \<lparr>shape = [2], data = [0, 254]\<rparr>"
    by (simp add: normalize_to_uint8_def np_max_def np_min_def normalize_f32_def
        astype_float32_def astype_uint8_def f32_div_def c n q t)
  show "np_max [0, 254 :: 8 word] \<noteq> Inr 255"
    by (simp add: np_max_def)
qed

text \<open>
  C3, amended. For every non-empty array of integer samples of magnitude at most
  \<open>2^24\<close> whose minimum \<open>m\<close> and maximum \<open>M\<close> satisfy \<open>m < M\<close> and
  \<open>255 * (M - m) \<le> 2^24\<close>, \<open>normalize_to_uint8\<close> returns an array of the same
  shape whose minimum element is 0 and whose maximum element is 255.
\<close>

theorem normalize_min_max:
  fixes a :: "int ndarray"
  defines "m \<equiv> Min (set (data a))" and "M \<equiv> Max (set (data a))"
  assumes ne: "data a \<noteq> []"
    and lt: "m < M"
    and rng: "\<forall>x\<in>set (data a). \<bar>x\<bar> \<le> 2 ^ 24"
    and span: "255 * (M - m) \<le> 2 ^ 24"
  shows "\<exists>b. normalize_to_uint8 nf a = Inr b \<and> shape b = shape a
           \<and> np_min (data b) = Inr 0 \<and> np_max (data b) = Inr 255"
proof -
  define g :: "int \<Rightarrow> 8 word" where "g = (\<lambda>x. word_of_int ((255 * (x - m)) div (M - m)))"
  define b where "b = \<lparr>shape = shape a, data = map g (data a)\<rparr>"
  have nb: "normalize_to_uint8 nf a = Inr b"
    using normalize_exact [of a nf] ne lt rng span by (simp add: b_def g_def m_def M_def)
  have bne: "data b \<noteq> []" using ne by (simp add: b_def)
  have "m \<in> set (data a)" using ne unfolding m_def by (intro Min_in) simp_all
  then have "g m \<in> set (data b)" by (simp add: b_def)
  moreover have "g m = 0" by (simp add: g_def)
  ultimately have z: "0 \<in> set (data b)" by simp
  have "M \<in> set (data a)" using ne unfolding M_def by (intro Max_in) simp_all
  then have "g M \<in> set (data b)" by (simp add: b_def)
  moreover have "g M = 255"
  proof -
    have "M - m \<noteq> 0" using lt by simp
    then have "(255 * (M - m)) div (M - m) = 255" by (rule nonzero_mult_div_cancel_right)
    then show ?thesis by (simp only: g_def) simp
  qed
  ultimately have t: "255 \<in> set (data b)" by simp
  have "Min (set (data b)) = 0" using z by (intro Min_eqI) simp_all
  moreover have "Max (set (data b)) = 255"
  proof (rule Max_eqI)
    fix y :: "8 word" assume "y \<in> set (data b)"
    have "uint y < 2 ^ 8" using uint_lt2p [of y] by simp
    then show "y \<le> 255" by (simp add: word_le_def)
  qed (use t in simp_all)
  ultimately show ?thesis
    using nb bne by (auto simp: np_min_eq np_max_eq b_def)
qed

text \<open>The amended C3 at the samples \<open>3, 4, 7\<close>.\<close>

theorem normalize_min_max_witness:
  "data \<lparr>shape = [3], data = [3, 4, 7 :: int]\<rparr> \<noteq> []
   \<and> Min (set (data \<lparr>shape = [3], data = [3, 4, 7 :: int]\<rparr>))
       < Max (set (data \<lparr>shape = [3], data = [3, 4, 7 :: int]\<rparr>))
   \<and> list_all (\<lambda>x. \<bar>x\<bar> \<le> 2 ^ 24) (data \<lparr>shape = [3], data = [3, 4, 7 :: int]\<rparr>)
   \<and> 255 * (Max (set (data \<lparr>shape = [3], data = [3, 4, 7 :: int]\<rparr>))
             - Min (set (data \<lparr>shape = [3], data = [3, 4, 7 :: int]\<rparr>))) \<le> 2 ^ 24
   \<and> (\<exists>b. normalize_to_uint8 (\<lambda>i k. 0) \<lparr>shape = [3], data = [3, 4, 7]\<rparr> = Inr b \<and> shape b = [3]
           \<and> np_min (data b) = Inr 0 \<and> np_max (data b) = Inr 255)"
  using normalize_min_max [of "\<lparr>shape = [3], data = [3, 4, 7]\<rparr>" "\<lambda>i k. 0"]
  by simp

text \<open>
  C4. For every non-empty array whose elements already lie in \<open>[0, 255]\<close>, applying
  \<open>normalize_to_uint8\<close> twice gives the same result as applying it once. The
  specification asks for this up to rounding only; on the code the two results are
  equal element for element, which is the claim with no rounding slack used.
\<close>

theorem normalize_idempotent:
  assumes ne: "data a \<noteq> []"
    and rng: "\<forall>x\<in>set (data a). 0 \<le> x \<and> x \<le> 255"
  shows "\<exists>b. normalize_to_uint8 nf a = Inr b \<and> normalize_to_uint8 nf (samples_of b) = Inr b"
proof (cases "Min (set (data a)) = Max (set (data a))")
  case True
  define b :: "8 word ndarray" where "b = zeros_like a"
  have "normalize_to_uint8 nf a = Inr b"
    using True ne by (simp add: normalize_to_uint8_def np_max_eq np_min_eq b_def)
  moreover have "normalize_to_uint8 nf (samples_of b) = Inr b"
  proof -
    have d: "data (samples_of b) = replicate (length (data a)) 0"
      by (simp add: samples_of_def b_def zeros_like_def)
    have "set (data (samples_of b)) = {0}" using ne by (simp add: d)
    moreover have "data (samples_of b) \<noteq> []" using ne by (simp add: d)
    ultimately show ?thesis
      by (simp add: normalize_to_uint8_def np_max_eq np_min_eq)
        (simp add: zeros_like_def samples_of_def b_def)
  qed
  ultimately show ?thesis by blast
next
  case False
  define m where "m = Min (set (data a))"
  define M where "M = Max (set (data a))"
  have mM: "m \<in> set (data a)" "M \<in> set (data a)"
    using ne by (simp_all add: m_def M_def)
  have "m \<le> M" using ne by (simp add: m_def M_def)
  with False have lt: "m < M" by (simp add: m_def M_def)
  have bounds: "0 \<le> m" "M \<le> 255" using rng mM by auto
  define h :: "int \<Rightarrow> int" where "h = (\<lambda>x. (255 * (x - m)) div (M - m))"
  define b :: "8 word ndarray" where
    "b = \<lparr>shape = shape a, data = map (\<lambda>x. word_of_int (h x)) (data a)\<rparr>"
  have first: "normalize_to_uint8 nf a = Inr b"
  proof -
    have "\<forall>x\<in>set (data a). \<bar>x\<bar> \<le> 2 ^ 24" using rng by auto
    moreover have "255 * (M - m) \<le> 2 ^ 24" using bounds by simp
    ultimately show ?thesis
      using normalize_exact [of a nf] ne lt by (simp add: b_def h_def m_def M_def)
  qed
  have hr: "0 \<le> h x \<and> h x \<le> 255" if "x \<in> set (data a)" for x
  proof -
    have x: "m \<le> x" "x \<le> M" using that by (simp_all add: m_def M_def)
    have "0 \<le> 255 * (x - m)" using x by simp
    then have lo: "0 \<le> h x" using lt by (simp add: h_def pos_imp_zdiv_nonneg_iff)
    have "255 * (x - m) \<le> 255 * (M - m)" using x by simp
    then have "(255 * (x - m)) div (M - m) \<le> (255 * (M - m)) div (M - m)"
      using lt by (intro zdiv_mono1) simp_all
    moreover have "(255 * (M - m)) div (M - m) = 255"
      using lt by (intro nonzero_mult_div_cancel_right) simp
    ultimately show ?thesis using lo by (simp add: h_def)
  qed
  have u: "uint (word_of_int (h x) :: 8 word) = h x" if "x \<in> set (data a)" for x
    using hr [OF that] by (simp add: uint_word_of_int take_bit_int_eq_self)
  have ds: "data (samples_of b) = map h (data a)"
    using u by (simp add: samples_of_def b_def)
  have hm: "h m = 0" by (simp add: h_def)
  have hM: "h M = 255"
    unfolding h_def using lt by (intro nonzero_mult_div_cancel_right) simp
  have min2: "Min (set (data (samples_of b))) = 0"
    using mM hm hr by (intro Min_eqI) (auto simp: ds)
  have max2: "Max (set (data (samples_of b))) = 255"
    using mM hM hr by (intro Max_eqI) (auto simp: ds)
  have second: "normalize_to_uint8 nf (samples_of b) = Inr b"
  proof -
    let ?ys = "data (samples_of b)"
    have ne2: "?ys \<noteq> []" using ne by (simp add: ds)
    have lt2: "Min (set ?ys) < Max (set ?ys)" by (simp add: min2 max2)
    have "\<bar>h x\<bar> \<le> 2 ^ 24" if "x \<in> set (data a)" for x
      using hr [OF that] by simp
    then have rng2: "\<forall>y\<in>set ?ys. \<bar>y\<bar> \<le> 2 ^ 24"
      by (simp add: ds)
    have span2: "255 * (Max (set ?ys) - Min (set ?ys)) \<le> 2 ^ 24"
      by (simp add: min2 max2)
    have "normalize_to_uint8 nf (samples_of b) =
        Inr \<lparr>shape = shape (samples_of b),
             data = map (\<lambda>y. word_of_int ((255 * (y - 0)) div (255 - 0))) ?ys\<rparr>"
      using normalize_exact [OF ne2 lt2 rng2 span2, of nf] by (simp only: min2 max2)
    also have "\<dots> = Inr \<lparr>shape = shape (samples_of b), data = map word_of_int ?ys\<rparr>"
      by simp
    also have "\<dots> = Inr b"
      by (simp add: samples_of_def b_def)
    finally show ?thesis .
  qed
  from first second show ?thesis by blast
qed

text \<open>C4 at the samples \<open>10, 20, 30\<close>.\<close>

theorem normalize_idempotent_witness:
  "data \<lparr>shape = [3], data = [10, 20, 30 :: int]\<rparr> \<noteq> []
   \<and> list_all (\<lambda>x. 0 \<le> x \<and> x \<le> 255) (data \<lparr>shape = [3], data = [10, 20, 30 :: int]\<rparr>)
   \<and> (\<exists>b. normalize_to_uint8 (\<lambda>i k. 0) \<lparr>shape = [3], data = [10, 20, 30]\<rparr> = Inr b
           \<and> normalize_to_uint8 (\<lambda>i k. 0) (samples_of b) = Inr b)"
  using normalize_idempotent [of "\<lparr>shape = [3], data = [10, 20, 30]\<rparr>" "\<lambda>i k. 0"]
  by simp

text \<open>
  Outside that range the function still returns an array. On the samples \<open>2^24\<close> and
  \<open>2^24 + 1\<close> both become \<open>2^24\<close> in single precision, every quotient is \<open>0 / 0\<close>, and
  the result holds whatever the cast stores for a NaN at each index.
\<close>

lemma normalize_nan_cast:
  "normalize_to_uint8 nf \<lparr>shape = [2], data = [16777216, 16777217]\<rparr>
     = Inr \<lparr>shape = [2], data = [nf 0 NaN, nf 1 NaN]\<rparr>"
proof -
  have c: "f32 16777216 = 16777216" "f32 16777217 = 16777216" by code_simp+
  show ?thesis
    by (simp add: normalize_to_uint8_def np_max_def np_min_def normalize_f32_def
        astype_float32_def astype_uint8_def f32_div_def c)
qed

subsection \<open>The estimator\<close>

text \<open>
  C7. For every input image array, \<open>estimate_bone_age\<close> returns the constant 120
  (months); the result does not depend on the image.
\<close>

theorem estimate_bone_age_constant:
  "estimate_bone_age img = 120 \<and> estimate_bone_age img = estimate_bone_age img'"
  by (simp add: estimate_bone_age_def)

subsection \<open>The confidence band\<close>

lemma f64_zero [simp]: "f64 0 = 0"
  by (simp add: f64_def)

lemma f64_pos_eq: "0 < q \<Longrightarrow> f64 q = of_int (round_half_even (q / ulp64 q)) * ulp64 q"
  by (simp add: f64_def)

lemma f64_minus: "f64 (- q) = - f64 q"
  by (simp add: f64_def)

lemma ulp64_pos: "0 < ulp64 q"
  by (simp add: ulp64_def)

lemma round_half_even_nonneg: "0 \<le> y \<Longrightarrow> 0 \<le> round_half_even y"
  by (auto simp: round_half_even_def Let_def)

lemma f64_nonpos:
  assumes "q \<le> 0"
  shows "f64 q \<le> 0"
proof (cases "q = 0")
  case True
  then show ?thesis by simp
next
  case False
  with assms have p: "0 < - q" by simp
  have "0 \<le> (- q) / ulp64 (- q)"
    using p ulp64_pos [of "- q"] by (intro divide_nonneg_pos) simp_all
  then have "0 \<le> round_half_even (- q / ulp64 (- q))" by (rule round_half_even_nonneg)
  then have "0 \<le> f64 (- q)"
    using ulp64_pos [of "- q"] by (simp add: f64_pos_eq [OF p])
  then show ?thesis by (simp add: f64_minus)
qed

lemma f64_dyadic_pos:
  assumes k: "0 < k" "k \<le> 2 ^ 53" and j: "j \<le> 1"
  shows "f64 (of_int k / 2 ^ j) = of_int k / 2 ^ j"
proof -
  define q where "q = (of_int k / 2 ^ j :: rat)"
  have qpos: "0 < q" using k by (simp add: q_def)
  define E where "E = max (floor_log2 q) (- 1022)"
  have u: "ulp64 q = 2 powi (E - 52)" by (simp add: ulp64_def E_def)
  have le: "2 powi floor_log2 q \<le> q" by (rule floor_log2_le [OF qpos])
  have "rat_of_int k \<le> of_int (2 ^ 53)" using k(2) by (simp only: of_int_le_iff)
  then have kr: "rat_of_int k \<le> 2 ^ 53" by simp
  have qle: "q \<le> 2 powi (53 - int j)"
  proof -
    have "q \<le> 2 ^ 53 / 2 ^ j" unfolding q_def using kr by (simp add: divide_right_mono)
    also have "\<dots> = 2 powi (53 - int j)" by (simp add: power_int_diff)
    finally show ?thesis .
  qed
  have "(2::rat) powi floor_log2 q \<le> 2 powi (53 - int j)" using le qle by (rule order_trans)
  then have e: "floor_log2 q \<le> 53 - int j"
    using j by (intro power_int_le_imp_le_exp [of 2 "floor_log2 q" "53 - int j"]) simp_all
  then have Ele: "E \<le> 53 - int j" using j by (simp add: E_def)
  show ?thesis
  proof (cases "E \<le> 52 - int j")
    case True
    define d where "d = nat (52 - int j - E)"
    have "E - 52 = - int (j + d)" using True by (simp add: d_def)
    then have "(2::rat) powi (E - 52) = 2 powi (- int (j + d))" by simp
    also have "\<dots> = 1 / 2 ^ (j + d)" by (simp only: power_int_minus power_int_of_nat) (simp add: field_simps)
    finally have up: "(2::rat) powi (E - 52) = 1 / (2 ^ j * 2 ^ d)" by (simp add: power_add)
    have uu: "ulp64 q = 1 / (2 ^ j * 2 ^ d)" using u up by simp
    have "q / ulp64 q = q * (2 ^ j * 2 ^ d)" by (simp add: uu)
    also have "\<dots> = of_int (k * 2 ^ d)" by (simp add: q_def)
    finally have "q / ulp64 q = of_int (k * 2 ^ d)" .
    then have "round_half_even (q / ulp64 q) = k * 2 ^ d" by (simp only: round_half_even_int)
    then have "f64 q = of_int (k * 2 ^ d) * (1 / (2 ^ j * 2 ^ d))"
      by (simp only: f64_pos_eq [OF qpos] u up)
    then show ?thesis by (simp add: q_def)
  next
    case False
    with Ele have E: "E = 53 - int j" by simp
    then have "floor_log2 q = 53 - int j" using j by (simp add: E_def max_def split: if_splits)
    with le have "2 powi (53 - int j) \<le> q" by simp
    with qle have qv: "q = 2 powi (53 - int j)" by simp
    have up: "ulp64 q = 2 powi (1 - int j)" by (simp add: u E)
    have "q / ulp64 q = 2 powi (53 - int j - (1 - int j))"
      unfolding qv [symmetric] up unfolding qv by (simp add: power_int_diff)
    then have "q / ulp64 q = of_int (2 ^ 52)" by simp
    then have "round_half_even (q / ulp64 q) = 2 ^ 52" by (simp only: round_half_even_int)
    then have "f64 q = of_int (2 ^ 52) * 2 powi (1 - int j)"
      by (simp only: f64_pos_eq [OF qpos] up)
    also have "\<dots> = 2 powi 52 * 2 powi (1 - int j)" by simp
    also have "\<dots> = 2 powi (52 + (1 - int j))" by (rule power_int_add [symmetric]) simp
    also have "\<dots> = q" by (simp add: qv)
    finally show ?thesis by (simp add: q_def)
  qed
qed

lemma f64_dyadic:
  assumes "\<bar>k\<bar> \<le> 2 ^ 53" and "j \<le> 1"
  shows "f64 (of_int k / 2 ^ j) = of_int k / 2 ^ j"
proof -
  consider "k = 0" | "0 < k" | "k < 0" by linarith
  then show ?thesis
  proof cases
    case 1 then show ?thesis by simp
  next
    case 2 with assms show ?thesis by (simp add: f64_dyadic_pos)
  next
    case 3
    with assms have "f64 (of_int (- k) / 2 ^ j) = of_int (- k) / 2 ^ j"
      by (intro f64_dyadic_pos) simp_all
    then have "f64 (- (of_int k / 2 ^ j)) = - (of_int k / 2 ^ j)" by simp
    then show ?thesis by (simp add: f64_minus)
  qed
qed

lemma f64_ge_half:
  assumes "1 \<le> q"
  shows "q / 2 \<le> f64 q"
proof -
  have qpos: "0 < q" using assms by simp
  define e where "e = floor_log2 q"
  have e0: "0 \<le> e"
  proof -
    have "0 < \<lfloor>q\<rfloor>" using assms by simp
    then have "0 < bit_length \<lfloor>q\<rfloor>" by (subst bit_length.simps) simp
    then show ?thesis using assms by (simp add: e_def floor_log2_def)
  qed
  have u: "ulp64 q = 2 powi (e - 52)" using e0 by (simp add: ulp64_def e_def)
  have "(2::rat) powi (e - 52) \<le> 2 powi e" by (intro power_int_increasing) simp_all
  also have "\<dots> \<le> q" unfolding e_def by (rule floor_log2_le [OF qpos])
  finally have uq: "ulp64 q \<le> q" by (simp add: u)
  have upos: "0 < ulp64 q" by (rule ulp64_pos)
  have "q / ulp64 q - of_int (round_half_even (q / ulp64 q)) \<le> 1 / 2"
    using round_half_even_err [of "q / ulp64 q"] by linarith
  then have "(q / ulp64 q - of_int (round_half_even (q / ulp64 q))) * ulp64 q \<le> (1 / 2) * ulp64 q"
    using upos by (intro mult_right_mono) simp_all
  moreover have "q - f64 q = (q / ulp64 q - of_int (round_half_even (q / ulp64 q))) * ulp64 q"
    using upos by (simp add: f64_pos_eq [OF qpos] field_simps)
  ultimately have "q - f64 q \<le> (1 / 2) * ulp64 q" by simp
  also have "\<dots> \<le> q / 2" using uq by simp
  finally show ?thesis by simp
qed

lemma float_of_int_exact:
  assumes "\<bar>n\<bar> \<le> 2 ^ 53"
  shows "float_of_int n = Inr (of_int n)"
proof -
  have x: "f64 (of_int n) = of_int n" using f64_dyadic [of n 0] assms by simp
  have "rat_of_int \<bar>n\<bar> \<le> of_int (2 ^ 53)" using assms by (simp only: of_int_le_iff)
  then have "\<bar>rat_of_int n\<bar> \<le> 2 ^ 53" by simp
  also have "(2::rat) ^ 53 < 2 ^ 1024" by (rule power_strict_increasing) simp_all
  finally have "\<not> 2 ^ 1024 \<le> \<bar>rat_of_int n\<bar>" by simp
  then show ?thesis by (simp add: float_of_int_def x)
qed

lemma band_in_range:
  assumes a: "\<bar>a\<bar> \<le> 2 ^ 52 + 1"
  shows "confidence_low a = Inr (max 0 (of_int a - 3 / 2))"
    and "confidence_high a = Inr (min 216 (of_int a + 3 / 2))"
proof -
  have fa: "float_of_int a = Inr (of_int a)" using a by (intro float_of_int_exact) simp
  have lo_eq: "rat_of_int a - 3 / 2 = of_int (2 * a - 3) / 2 ^ 1" by (simp add: field_simps)
  have hi_eq: "rat_of_int a + 3 / 2 = of_int (2 * a + 3) / 2 ^ 1" by (simp add: field_simps)
  show "confidence_low a = Inr (max 0 (of_int a - 3 / 2))"
  proof (cases "- (2 ^ 53) \<le> 2 * a - 3")
    case True
    with a have "\<bar>2 * a - 3\<bar> \<le> 2 ^ 53" by simp
    then have "f64 (of_int (2 * a - 3) / 2 ^ 1) = of_int (2 * a - 3) / 2 ^ 1"
      by (intro f64_dyadic) simp_all
    then have "f64 (rat_of_int a - 3 / 2) = rat_of_int a - 3 / 2" by (simp only: lo_eq)
    then show ?thesis by (simp add: confidence_low_def fa)
  next
    case False
    then have "a < 0" by simp
    then have neg: "rat_of_int a - 3 / 2 \<le> 0" by simp
    then have "f64 (rat_of_int a - 3 / 2) \<le> 0" by (rule f64_nonpos)
    with neg show ?thesis by (simp add: confidence_low_def fa max_def)
  qed
  show "confidence_high a = Inr (min 216 (of_int a + 3 / 2))"
  proof (cases "2 * a + 3 \<le> 2 ^ 53")
    case True
    with a have "\<bar>2 * a + 3\<bar> \<le> 2 ^ 53" by simp
    then have "f64 (of_int (2 * a + 3) / 2 ^ 1) = of_int (2 * a + 3) / 2 ^ 1"
      by (intro f64_dyadic) simp_all
    then have "f64 (rat_of_int a + 3 / 2) = rat_of_int a + 3 / 2" by (simp only: hi_eq)
    then show ?thesis by (simp add: confidence_high_def fa)
  next
    case False
    then have "434 \<le> a" by simp
    then have "rat_of_int 434 \<le> of_int a" by (simp only: of_int_le_iff)
    then have big: "435 \<le> rat_of_int a + 3 / 2" by simp
    then have "(rat_of_int a + 3 / 2) / 2 \<le> f64 (rat_of_int a + 3 / 2)"
      by (intro f64_ge_half) simp
    with big have "216 \<le> f64 (rat_of_int a + 3 / 2)" by simp
    with big show ?thesis by (simp add: confidence_high_def fa min_def)
  qed
qed

text \<open>
  C8 as stated fails for estimates that double precision cannot hold with their half:
  at \<open>a = 2^52 + 2\<close> the difference \<open>a - 1.5 = 2^52 + 0.5\<close> lies half-way between two
  doubles and is rounded to \<open>2^52\<close>, so the lower end computed is \<open>4503599627370496\<close>
  where \<open>max(0, a - 1.5)\<close> is \<open>4503599627370496.5\<close>.
\<close>

theorem confidence_band_counterexample:
  "confidence_low 4503599627370498 = Inr 4503599627370496
   \<and> max 0 (rat_of_int 4503599627370498 - 3 / 2) = 9007199254740993 / 2"
proof
  have x: "f64 4503599627370498 = 4503599627370498" by code_simp
  have y: "f64 (9007199254740993 / 2) = 4503599627370496" by code_simp
  have "4503599627370498 - 3 / 2 = (9007199254740993 / 2 :: rat)" by simp
  then show "confidence_low 4503599627370498 = Inr 4503599627370496"
    by (simp add: confidence_low_def float_of_int_def x y)
  show "max 0 (rat_of_int 4503599627370498 - 3 / 2) = 9007199254740993 / 2" by simp
qed

text \<open>
  C8, amended. For every integer age estimate \<open>a\<close> in months with
  \<open>|a| \<le> 2^52 + 1\<close> the displayed confidence band is
  \<open>[max(0, a - 1.5), min(216, a + 1.5)]\<close>; for \<open>a = 120\<close> it is \<open>[118.5, 121.5]\<close>,
  for \<open>a = 1\<close> it is \<open>[0, 2.5]\<close>, and for \<open>a = 216\<close> the upper end is clamped at
  216.
\<close>

theorem confidence_band:
  assumes "\<bar>a\<bar> \<le> 2 ^ 52 + 1"
  shows "confidence_low a = Inr (max 0 (of_int a - 3 / 2))
   \<and> confidence_high a = Inr (min 216 (of_int a + 3 / 2))
   \<and> confidence_low 120 = Inr (237 / 2) \<and> confidence_high 120 = Inr (243 / 2)
   \<and> confidence_low 1 = Inr 0 \<and> confidence_high 1 = Inr (5 / 2)
   \<and> confidence_high 216 = Inr 216"
  using band_in_range [OF assms] band_in_range [of 120] band_in_range [of 1]
    band_in_range [of 216]
  by simp

text \<open>The amended C8 at the estimate the placeholder returns.\<close>

theorem confidence_band_witness:
  "\<bar>120 :: int\<bar> \<le> 2 ^ 52 + 1
   \<and> confidence_low (estimate_bone_age \<lparr>shape = [1], data = [0 :: 8 word]\<rparr>) = Inr (237 / 2)
   \<and> confidence_high (estimate_bone_age \<lparr>shape = [1], data = [0 :: 8 word]\<rparr>) = Inr (243 / 2)"
  using confidence_band [of 120]
  by (simp add: estimate_bone_age_def)

subsection \<open>The metadata scrub\<close>

lemma scrub_dataset:
  "snd (scrub tags ds tr) =
     Inr (\<lambda>k. if k \<in> set tags then map_option (\<lambda>e. e\<lparr>elem_value := []\<rparr>) (ds k) else ds k)"
proof (induction tags arbitrary: ds tr)
  case Nil
  then show ?case by simp
next
  case (Cons tag tags)
  show ?case
  proof (cases "ds tag")
    case None
    then show ?thesis
      by (auto simp: contains_def Cons.IH)
  next
    case (Some e)
    then show ?thesis
      by (auto simp: contains_def set_value_def Cons.IH)
  qed
qed

lemma scrub_trace:
  "map fst (fst (scrub tags ds tr)) =
     map fst tr @ map (\<lambda>tag. if contains ds tag then FieldCleared tag else FieldAbsent tag) tags"
proof (induction tags arbitrary: ds tr)
  case Nil
  then show ?case by simp
next
  case (Cons tag tags)
  show ?case
  proof (cases "ds tag")
    case None
    then show ?thesis by (simp add: contains_def Cons.IH)
  next
    case (Some e)
    have "contains (ds(tag \<mapsto> e\<lparr>elem_value := []\<rparr>)) t = contains ds t" for t
      using Some by (simp add: contains_def)
    then show ?thesis using Some
      by (simp add: set_value_def Cons.IH) (simp add: contains_def)
  qed
qed

text \<open>
  C5. For every decoded data set the scrub ends without an error, and in the data set it
  leaves each of \<open>PatientName\<close>, \<open>PatientID\<close> and \<open>PatientBirthDate\<close> has the empty
  value when it was present (the rest of the element as before) and is absent when it
  was absent; every other field is unchanged.
\<close>

theorem scrub_identity_fields:
  "\<exists>tr' ds'. scrub identity_tags ds tr = (tr', Inr ds')
     \<and> (\<forall>k. ds' k = (if k \<in> {''PatientName'', ''PatientID'', ''PatientBirthDate''}
                      then map_option (\<lambda>e. e\<lparr>elem_value := []\<rparr>) (ds k)
                      else ds k))"
proof -
  define ds' where
    "ds' = (\<lambda>k. if k \<in> set identity_tags then map_option (\<lambda>e. e\<lparr>elem_value := []\<rparr>) (ds k) else ds k)"
  have "snd (scrub identity_tags ds tr) = Inr ds'"
    unfolding ds'_def by (rule scrub_dataset)
  then have run: "scrub identity_tags ds tr = (fst (scrub identity_tags ds tr), Inr ds')"
    by (metis prod.collapse)
  have tags: "set identity_tags = {''PatientName'', ''PatientID'', ''PatientBirthDate''}"
    by (simp add: identity_tags_def)
  have "\<forall>k. ds' k = (if k \<in> {''PatientName'', ''PatientID'', ''PatientBirthDate''}
                      then map_option (\<lambda>e. e\<lparr>elem_value := []\<rparr>) (ds k)
                      else ds k)"
    by (simp only: ds'_def tags) simp
  with run show ?thesis by blast
qed

text \<open>
  The scrub on a record with a name and a birth date and no \<open>PatientID\<close>: both values
  are emptied, \<open>PatientID\<close> stays absent, the modality is untouched.
\<close>

lemma scrub_example:
  "snd (scrub identity_tags
          [''PatientName'' \<mapsto> \<lparr>VR = ''PN'', elem_value = ''Jane Doe''\<rparr>,
           ''PatientBirthDate'' \<mapsto> \<lparr>VR = ''DA'', elem_value = ''20100101''\<rparr>,
           ''Modality'' \<mapsto> \<lparr>VR = ''CS'', elem_value = ''CR''\<rparr>] [])
   = Inr [''PatientName'' \<mapsto> \<lparr>VR = ''PN'', elem_value = []\<rparr>,
          ''PatientBirthDate'' \<mapsto> \<lparr>VR = ''DA'', elem_value = []\<rparr>,
          ''Modality'' \<mapsto> \<lparr>VR = ''CS'', elem_value = ''CR''\<rparr>]"
  by (auto simp: identity_tags_def contains_def set_value_def)

lemma dicom_branch_trace:
  "\<exists>sc rest. fst (dicom_branch nf f) = sc @ rest
     \<and> map fst sc = map (\<lambda>tag. if contains (elements f) tag then FieldCleared tag else FieldAbsent tag)
                       identity_tags
     \<and> (\<forall>x\<in>set rest. snd x = scrubbed (elements f))"
proof -
  obtain sc r where r: "scrub identity_tags (elements f) [] = (sc, r)"
    by (cases "scrub identity_tags (elements f) []")
  have sc: "map fst sc = map (\<lambda>tag. if contains (elements f) tag then FieldCleared tag else FieldAbsent tag) identity_tags"
    using scrub_trace [of identity_tags "elements f" "[]"] by (simp add: r)
  have rv: "r = Inr (scrubbed (elements f))"
    using scrub_dataset [of identity_tags "elements f" "[]"] by (simp add: r scrubbed_def)
  have "\<exists>rest. fst (dicom_branch nf f) = sc @ rest \<and> (\<forall>x\<in>set rest. snd x = scrubbed (elements f))"
    by (auto simp: dicom_branch_def r rv split: sum.splits)
  with sc show ?thesis by blast
qed

lemma scrubbed_identity_cleared: "identity_cleared (scrubbed ds)"
  by (simp add: identity_cleared_def scrubbed_def identity_tags_def split: option.splits)

text \<open>
  C6. In every execution of the DICOM branch, whatever step extracts, displays or hands
  the pixel array to the estimator comes after the loop body has been done for
  \<open>PatientName\<close>, \<open>PatientID\<close> and \<open>PatientBirthDate\<close>, and the data set is by then the
  scrubbed one: it holds no identity value, each of the three fields being empty where
  the file had it and absent where it had not, and every other field as in the file. The
  report is composed from the name, the gender and the estimate only and never receives
  the pixel array.
\<close>

theorem scrub_precedes_pixels:
  assumes tr: "fst (dicom_branch nf f) = pre @ (e, ds) # post"
    and px: "uses_pixels e"
  shows "scrub_done (map fst pre) \<and> identity_cleared ds
     \<and> (\<forall>k. ds k = (if k \<in> {''PatientName'', ''PatientID'', ''PatientBirthDate''}
                     then map_option (\<lambda>el. el\<lparr>elem_value := []\<rparr>) (elements f k)
                     else elements f k))"
proof -
  let ?ev = "\<lambda>tag. if contains (elements f) tag then FieldCleared tag else FieldAbsent tag"
  obtain sc rest where split: "fst (dicom_branch nf f) = sc @ rest"
    and sc: "map fst sc = map ?ev identity_tags"
    and rest: "\<forall>x\<in>set rest. snd x = scrubbed (elements f)"
    using dicom_branch_trace by blast
  have nopx: "\<not> uses_pixels (fst x)" if "x \<in> set sc" for x
  proof -
    have "fst x \<in> set (map fst sc)" using that by simp
    then have "fst x \<in> ?ev ` set identity_tags" by (simp only: sc set_map)
    then obtain tag where "fst x = ?ev tag" by (rule imageE)
    then show ?thesis by (cases "contains (elements f) tag") simp_all
  qed
  from tr split have "sc @ rest = pre @ (e, ds) # post" by simp
  then consider us where "sc = pre @ us" "us @ rest = (e, ds) # post"
    | us where "sc @ us = pre" "rest = us @ (e, ds) # post"
    by (auto simp: append_eq_append_conv2)
  then have sub: "set sc \<subseteq> set pre \<and> (e, ds) \<in> set rest"
  proof cases
    case 1
    show ?thesis
    proof (cases us)
      case Nil
      with 1 show ?thesis by auto
    next
      case (Cons u us')
      with 1 have "u = (e, ds)" by simp
      moreover have "u \<in> set sc" using 1(1) Cons by simp
      ultimately show ?thesis using nopx px by fastforce
    qed
  next
    case 2
    then show ?thesis by auto
  qed
  have sd: "scrub_done (map fst pre)"
  proof -
    have "FieldCleared tag \<in> set (map fst pre) \<or> FieldAbsent tag \<in> set (map fst pre)"
      if "tag \<in> set identity_tags" for tag
    proof -
      have "?ev tag \<in> set (map fst sc)" unfolding sc using that by simp
      moreover have "set (map fst sc) \<subseteq> set (map fst pre)" using sub by auto
      ultimately have "?ev tag \<in> set (map fst pre)" by blast
      then show ?thesis by (auto split: if_splits)
    qed
    then show ?thesis by (simp add: scrub_done_def list_all_iff)
  qed
  have ds: "ds = scrubbed (elements f)" using sub rest by fastforce
  have tags: "set identity_tags = {''PatientName'', ''PatientID'', ''PatientBirthDate''}"
    by (simp add: identity_tags_def)
  have "\<forall>k. ds k = (if k \<in> {''PatientName'', ''PatientID'', ''PatientBirthDate''}
                     then map_option (\<lambda>el. el\<lparr>elem_value := []\<rparr>) (elements f k)
                     else elements f k)"
    by (simp only: ds scrubbed_def tags) simp
  with sd ds scrubbed_identity_cleared show ?thesis by simp
qed

text \<open>C6 on a file with a patient name, a modality and a three-sample image.\<close>

theorem scrub_precedes_pixels_witness:
  "scrub_done [FieldCleared ''PatientName'', FieldAbsent ''PatientID'', FieldAbsent ''PatientBirthDate'']
   \<and> uses_pixels PixelArrayRead
   \<and> identity_cleared [''PatientName'' \<mapsto> \<lparr>VR = ''PN'', elem_value = []\<rparr>,
                         ''Modality'' \<mapsto> \<lparr>VR = ''CS'', elem_value = ''CR''\<rparr>]
   \<and> map fst (fst (dicom_branch (\<lambda>i k. 0)
          \<lparr>elements = [''PatientName'' \<mapsto> \<lparr>VR = ''PN'', elem_value = ''Jane Doe''\<rparr>,
                       ''Modality'' \<mapsto> \<lparr>VR = ''CS'', elem_value = ''CR''\<rparr>],
           pixels = Some \<lparr>shape = [3], data = [0, 4, 7]\<rparr>\<rparr>))
     = [FieldCleared ''PatientName'', FieldAbsent ''PatientID'', FieldAbsent ''PatientBirthDate'',
        PixelArrayRead,
        ImageDisplayed \<lparr>shape = [3], data = [0, 145, 255]\<rparr>,
        EstimatorCalled \<lparr>shape = [3], data = [0, 145, 255]\<rparr>]"
proof -
  let ?f = "\<lparr>elements = [''PatientName'' \<mapsto> \<lparr>VR = ''PN'', elem_value = ''Jane Doe''\<rparr>,
                        ''Modality'' \<mapsto> \<lparr>VR = ''CS'', elem_value = ''CR''\<rparr>],
            pixels = Some \<lparr>shape = [3], data = [0, 4, 7]\<rparr>\<rparr>"
  let ?ds = "[''PatientName'' \<mapsto> \<lparr>VR = ''PN'', elem_value = []\<rparr>,
              ''Modality'' \<mapsto> \<lparr>VR = ''CS'', elem_value = ''CR''\<rparr>]"
  let ?b = "\<lparr>shape = [3], data = [0, 145, 255 :: 8 word]\<rparr>"
  have upd: "[''PatientName'' \<mapsto> \<lparr>VR = ''PN'', elem_value = ''Jane Doe''\<rparr>,
              ''Modality'' \<mapsto> \<lparr>VR = ''CS'', elem_value = ''CR''\<rparr>]
             (''PatientName'' \<mapsto> \<lparr>VR = ''PN'', elem_value = []\<rparr>) = ?ds"
    by (rule ext) simp
  have tr: "fst (dicom_branch (\<lambda>i k. 0) ?f)
     = [(FieldCleared ''PatientName'', ?ds), (FieldAbsent ''PatientID'', ?ds),
        (FieldAbsent ''PatientBirthDate'', ?ds)]
       @ (PixelArrayRead, ?ds) # [(ImageDisplayed ?b, ?ds), (EstimatorCalled ?b, ?ds)]"
    by (simp add: dicom_branch_def identity_tags_def contains_def set_value_def pixel_array_def
        normalize_0_4_7 upd)
  have px: "uses_pixels PixelArrayRead" by simp
  from scrub_precedes_pixels [OF tr px] px tr show ?thesis by simp
qed

text \<open>
  The branch goes on to the display and to the estimator also when the rescaling meets
  \<open>0 / 0\<close>: nothing is raised there.
\<close>

lemma dicom_branch_nan_trace:
  "map fst (fst (dicom_branch nf
          \<lparr>elements = Map.empty, pixels = Some \<lparr>shape = [2], data = [16777216, 16777217]\<rparr>\<rparr>))
     = [FieldAbsent ''PatientName'', FieldAbsent ''PatientID'', FieldAbsent ''PatientBirthDate'',
        PixelArrayRead,
        ImageDisplayed \<lparr>shape = [2], data = [nf 0 NaN, nf 1 NaN]\<rparr>,
        EstimatorCalled \<lparr>shape = [2], data = [nf 0 NaN, nf 1 NaN]\<rparr>]"
  by (simp add: dicom_branch_def identity_tags_def contains_def pixel_array_def
      normalize_nan_cast)

subsection \<open>The download file name\<close>

lemma strip_decomposition:
  "\<exists>pre post. s = pre @ strip s @ post \<and> list_all isspace pre \<and> list_all isspace post"
proof -
  define rest where "rest = dropWhile isspace s"
  have s: "s = takeWhile isspace s @ rest" by (simp add: rest_def)
  have "rest = rev (takeWhile isspace (rev rest) @ dropWhile isspace (rev rest))"
    by (simp only: takeWhile_dropWhile_id rev_rev_ident)
  also have "\<dots> = rev (dropWhile isspace (rev rest)) @ rev (takeWhile isspace (rev rest))"
    by (rule rev_append)
  finally have rest: "rest = strip s @ rev (takeWhile isspace (rev rest))"
    by (simp only: strip_def rest_def)
  have "s = takeWhile isspace s @ strip s @ rev (takeWhile isspace (rev rest))"
    using s rest by simp
  moreover have "list_all isspace (takeWhile isspace s)"
    by (auto simp: list_all_iff dest: set_takeWhileD)
  moreover have "list_all isspace (rev (takeWhile isspace (rev rest)))"
    by (auto simp: list_all_iff dest: set_takeWhileD)
  ultimately show ?thesis by blast
qed

lemma strip_ends:
  assumes "strip s \<noteq> []"
  shows "\<not> isspace (hd (strip s))" "\<not> isspace (last (strip s))"
proof -
  define rest where "rest = dropWhile isspace s"
  define t where "t = dropWhile isspace (rev rest)"
  have st: "strip s = rev t" by (simp add: strip_def rest_def t_def)
  with assms have tne: "t \<noteq> []" by simp
  then have "\<not> isspace (hd t)" unfolding t_def by (rule hd_dropWhile)
  then show "\<not> isspace (last (strip s))" using tne by (simp add: st last_rev)
  have restne: "rest \<noteq> []" using tne by (auto simp: t_def)
  have "last t = last (rev rest)"
  proof -
    have "rev rest = takeWhile isspace (rev rest) @ t" by (simp add: t_def)
    then have "last (rev rest) = last (takeWhile isspace (rev rest) @ t)" by simp
    also have "\<dots> = last t" using tne by simp
    finally show ?thesis by simp
  qed
  also have "\<dots> = hd rest" using restne by (simp add: last_rev)
  finally have "hd (strip s) = hd rest" using tne by (simp add: st hd_rev)
  moreover have "\<not> isspace (hd rest)" using restne unfolding rest_def by (rule hd_dropWhile)
  ultimately show "\<not> isspace (hd (strip s))" by simp
qed


text \<open>
  C9. For every patient name the file name is the name without its leading and trailing
  whitespace, each remaining space character replaced by an underscore, followed by
  \<open>_report.pdf\<close>: the name splits into a whitespace prefix, a core that neither starts
  nor ends with whitespace, and a whitespace suffix, and the file name is made from the
  core. \<open>Jane Doe\<close> gives \<open>Jane_Doe_report.pdf\<close> and \<open>Bob\<close> between two spaces on each
  side gives \<open>Bob_report.pdf\<close>.
\<close>

theorem safe_filename_derivation:
  "(\<exists>pre core post. name = pre @ core @ post \<and> list_all isspace pre \<and> list_all isspace post
       \<and> (core = [] \<or> \<not> isspace (hd core) \<and> \<not> isspace (last core))
       \<and> safe_filename name = map (\<lambda>c. if c = 32 then 95 else c) core @ py_str ''_report.pdf'')
   \<and> safe_filename (py_str ''Jane Doe'') = py_str ''Jane_Doe_report.pdf''
   \<and> safe_filename (py_str ''  Bob  '') = py_str ''Bob_report.pdf''"
proof (intro conjI)
  obtain pre post where d: "name = pre @ strip name @ post" "list_all isspace pre" "list_all isspace post"
    using strip_decomposition by blast
  have "strip name = [] \<or> \<not> isspace (hd (strip name)) \<and> \<not> isspace (last (strip name))"
    using strip_ends [of name] by blast
  moreover have "safe_filename name = map (\<lambda>c. if c = 32 then 95 else c) (strip name) @ py_str ''_report.pdf''"
    by (simp add: safe_filename_def replace_char_def)
  ultimately show "\<exists>pre core post. name = pre @ core @ post \<and> list_all isspace pre \<and> list_all isspace post
       \<and> (core = [] \<or> \<not> isspace (hd core) \<and> \<not> isspace (last core))
       \<and> safe_filename name = map (\<lambda>c. if c = 32 then 95 else c) core @ py_str ''_report.pdf''"
    using d by blast
  show "safe_filename (py_str ''Jane Doe'') = py_str ''Jane_Doe_report.pdf''"
    by (simp add: safe_filename_def py_str_def strip_def replace_char_def isspace_def)
  show "safe_filename (py_str ''  Bob  '') = py_str ''Bob_report.pdf''"
    by (simp add: safe_filename_def py_str_def strip_def replace_char_def isspace_def)
qed



end
